theory Spec2Isabelle
  imports Main "HOL-Library.Sublist"
begin

section \<open>Python primitives used by \<open>load_data.py\<close> and \<open>train.py\<close>\<close>

text \<open>
  A Python \<open>str\<close> is modelled as a \<open>string\<close>; one list element stands for one
  character of the Python string (the model covers the characters with a code below 256).
  Offsets are Python's unbounded integers, hence \<open>int\<close>.
\<close>

datatype error = IndexError | ValueError | UnboundLocalError | KeyError string | TokenizerError
  \<comment> \<open>the exceptions of the two files; \<open>TokenizerError\<close> is any exception raised inside
      the tokenizer\<close>

definition py_norm :: "nat \<Rightarrow> int \<Rightarrow> nat" where
  \<comment> \<open>a slice bound of a sequence of length \<open>n\<close>: a negative bound counts from the end,
      and the result is clamped to \<open>0..n\<close>\<close>
  "py_norm n i = (if i < 0 then nat (int n + i) else min n (nat i))"

definition py_slice :: "'a list \<Rightarrow> int \<Rightarrow> int \<Rightarrow> 'a list" where
  \<comment> \<open>\<open>s[lo:hi]\<close>\<close>
  "py_slice s lo hi =
     (let l = py_norm (length s) lo; h = py_norm (length s) hi
      in take (h - l) (drop l s))"

definition py_upto :: "'a list \<Rightarrow> int \<Rightarrow> 'a list" where
  \<comment> \<open>\<open>s[:hi]\<close>\<close>
  "py_upto s hi = take (py_norm (length s) hi) s"

definition py_from :: "'a list \<Rightarrow> int \<Rightarrow> 'a list" where
  \<comment> \<open>\<open>s[lo:]\<close>\<close>
  "py_from s lo = drop (py_norm (length s) lo) s"

fun py_split :: "char \<Rightarrow> string \<Rightarrow> string list" where
  \<comment> \<open>\<open>s.split(c)\<close> for a one-character separator: never empty\<close>
  "py_split c [] = [[]]"
| "py_split c (a # s) =
     (if a = c then [] # py_split c s
      else (case py_split c s of [] \<Rightarrow> [[a]] | p # ps \<Rightarrow> (a # p) # ps))"

definition py_isspace :: "char \<Rightarrow> bool" where
  \<comment> \<open>the characters below 256 for which \<open>str.isspace\<close> holds\<close>
  "py_isspace c =
     (let k = (of_char c :: nat)
      in (9 \<le> k \<and> k \<le> 13) \<or> (28 \<le> k \<and> k \<le> 32) \<or> k = 133 \<or> k = 160)"

definition py_strip :: "string \<Rightarrow> string" where
  \<comment> \<open>\<open>s.strip()\<close>\<close>
  "py_strip s = rev (dropWhile py_isspace (rev (dropWhile py_isspace s)))"

definition py_isdigit :: "char \<Rightarrow> bool" where
  "py_isdigit c = (48 \<le> (of_char c :: nat) \<and> (of_char c :: nat) \<le> 57)"

fun parse_digits :: "nat \<Rightarrow> bool \<Rightarrow> string \<Rightarrow> nat option" where
  \<comment> \<open>decimal digits in which single underscores may separate digits; the flag says
      whether the previous character was a digit\<close>
  "parse_digits acc prev [] = (if prev then Some acc else None)"
| "parse_digits acc prev (c # cs) =
     (if py_isdigit c then parse_digits (10 * acc + ((of_char c :: nat) - 48)) True cs
      else if c = CHR ''_'' \<and> prev then parse_digits acc False cs
      else None)"

definition py_int :: "string \<Rightarrow> int option" where
  \<comment> \<open>\<open>int(s)\<close>: \<open>None\<close> stands for \<open>ValueError\<close>\<close>
  "py_int s =
     (case py_strip s of
        [] \<Rightarrow> None
      | c # cs \<Rightarrow>
          if c = CHR ''+'' then map_option int (parse_digits 0 False cs)
          else if c = CHR ''-'' then map_option (\<lambda>n. - int n) (parse_digits 0 False cs)
          else map_option int (parse_digits 0 False (c # cs)))"

section \<open>\<open>load_data\<close>\<close>

record raw_record =
  rid :: int
  sentence :: string
  subject_entity :: string
  object_entity :: string
  label :: string

record annotated =
  a_id :: int
  a_sentence :: string
  a_subject_entity :: string
  a_object_entity :: string
  a_subject_type :: string
  a_object_type :: string
  a_label :: string
  a_subject_idx :: "int \<times> int"
  a_object_idx :: "int \<times> int"

text \<open>
  The four offset variables are locals of \<open>load_data\<close>, assigned inside the loop over the
  rows and never reset: \<open>None\<close> is "not yet bound".
\<close>

record offsets =
  sub_start :: "int option"
  sub_end :: "int option"
  obj_start :: "int option"
  obj_end :: "int option"

definition unbound :: offsets where
  "unbound = \<lparr>sub_start = None, sub_end = None, obj_start = None, obj_end = None\<rparr>"

definition entity_type :: "string \<Rightarrow> error + string" where
  \<comment> \<open>\<open>x[1:-1].split(':')[-1].split('\'')[-2]\<close>\<close>
  "entity_type x =
     (let qs = py_split (CHR 0x27) (last (py_split CHR '':'' (py_slice x 1 (- 1))))
      in if length qs < 2 then Inl IndexError else Inr (qs ! (length qs - 2)))"

definition key_at :: "string \<Rightarrow> string \<Rightarrow> nat \<Rightarrow> bool" where
  \<comment> \<open>\<open>x[i: i + len(key)] == key\<close>\<close>
  "key_at key x i = (py_slice x (int i) (int i + int (length key)) = key)"

definition read_int :: "string \<Rightarrow> nat \<Rightarrow> error + int" where
  \<comment> \<open>\<open>int(x[k:].split(',')[0].strip())\<close>\<close>
  "read_int x k =
     (case py_int (py_strip (hd (py_split CHR '','' (py_from x (int k))))) of
        None \<Rightarrow> Inl ValueError
      | Some n \<Rightarrow> Inr n)"

definition scan_key ::
  "string \<Rightarrow> nat \<Rightarrow> string \<Rightarrow> nat \<Rightarrow> (int option \<Rightarrow> offsets \<Rightarrow> offsets) \<Rightarrow> offsets
     \<Rightarrow> error + offsets" where
  \<comment> \<open>one \<open>if\<close> of the scan body: when the key is at position \<open>i\<close>, the variable is
      assigned the integer read \<open>skip\<close> characters further on\<close>
  "scan_key key skip x i upd v =
     (if key_at key x i
      then (case read_int x (i + skip) of Inl e \<Rightarrow> Inl e | Inr n \<Rightarrow> Inr (upd (Some n) v))
      else Inr v)"

definition bind_err :: "error + 'a \<Rightarrow> ('a \<Rightarrow> error + 'b) \<Rightarrow> error + 'b" where
  "bind_err m f = (case m of Inl e \<Rightarrow> Inl e | Inr a \<Rightarrow> f a)"

definition scan_step :: "string \<Rightarrow> string \<Rightarrow> nat \<Rightarrow> offsets \<Rightarrow> error + offsets" where
  \<comment> \<open>the body of \<open>for idx_i in range(len(x))\<close>, lines 36 to 44\<close>
  "scan_step x y i v =
     bind_err (scan_key ''start_idx'' 12 x i (\<lambda>n w. w\<lparr>sub_start := n\<rparr>) v) (\<lambda>v1.
     bind_err (scan_key ''end_idx'' 10 x i (\<lambda>n w. w\<lparr>sub_end := n\<rparr>) v1) (\<lambda>v2.
     bind_err (scan_key ''start_idx'' 12 y i (\<lambda>n w. w\<lparr>obj_start := n\<rparr>) v2) (\<lambda>v3.
     scan_key ''end_idx'' 10 y i (\<lambda>n w. w\<lparr>obj_end := n\<rparr>) v3)))"

fun scan_loop :: "string \<Rightarrow> string \<Rightarrow> nat list \<Rightarrow> offsets \<Rightarrow> error + offsets" where
  "scan_loop x y [] v = Inr v"
| "scan_loop x y (i # is) v =
     (case scan_step x y i v of Inl e \<Rightarrow> Inl e | Inr v' \<Rightarrow> scan_loop x y is v')"

definition scan_offsets :: "string \<Rightarrow> string \<Rightarrow> offsets \<Rightarrow> error + offsets" where
  \<comment> \<open>the positions scanned are those of \<open>x\<close>, the subject field, for both fields\<close>
  "scan_offsets x y v = scan_loop x y [0..<length x] v"

definition mark_sentence :: "string \<Rightarrow> int \<Rightarrow> int \<Rightarrow> int \<Rightarrow> int \<Rightarrow> string" where
  \<comment> \<open>lines 54 to 59\<close>
  "mark_sentence z ss se os oe =
     (if ss < os then
        (let z1 = py_upto z ss @ ''[SUB]'' @ py_slice z ss (se + 1) @ ''[/SUB]''
                    @ py_from z (se + 1)
         in py_upto z1 (os + 11) @ ''[OBJ]'' @ py_slice z1 (os + 11) (oe + 12) @ ''[/OBJ]''
              @ py_from z1 (oe + 12))
      else
        (let z1 = py_upto z os @ ''[OBJ]'' @ py_slice z os (oe + 1) @ ''[/OBJ]''
                    @ py_from z (oe + 1)
         in py_upto z1 (ss + 11) @ ''[SUB]'' @ py_slice z1 (ss + 11) (se + 12) @ ''[/SUB]''
              @ py_from z1 (se + 12)))"

definition bound_offsets :: "offsets \<Rightarrow> error + (int \<times> int \<times> int \<times> int)" where
  \<comment> \<open>lines 46 and 47: reading a local that was never assigned raises\<close>
  "bound_offsets v =
     (case (sub_start v, sub_end v, obj_start v, obj_end v) of
        (Some ss, Some se, Some os, Some oe) \<Rightarrow> Inr (ss, se, os, oe)
      | _ \<Rightarrow> Inl UnboundLocalError)"

definition annotate :: "raw_record \<Rightarrow> string \<Rightarrow> string \<Rightarrow> int \<times> int \<times> int \<times> int \<Rightarrow> annotated" where
  \<comment> \<open>lines 49 to 62, and the columns of the data frame of line 64\<close>
  "annotate r sub_typ obj_typ b =
     (case b of (ss, se, os, oe) \<Rightarrow>
        \<lparr>a_id = rid r,
         a_sentence = mark_sentence (sentence r) ss se os oe,
         a_subject_entity = py_slice (sentence r) ss (se + 1),
         a_object_entity = py_slice (sentence r) os (oe + 1),
         a_subject_type = sub_typ,
         a_object_type = obj_typ,
         a_label = label r,
         a_subject_idx = (ss, se),
         a_object_idx = (os, oe)\<rparr>)"

definition process_row :: "offsets \<Rightarrow> raw_record \<Rightarrow> error + (offsets \<times> annotated)" where
  \<comment> \<open>one iteration of the loop over the rows, lines 32 to 62\<close>
  "process_row v r =
     bind_err (entity_type (subject_entity r)) (\<lambda>sub_typ.
     bind_err (entity_type (object_entity r)) (\<lambda>obj_typ.
     bind_err (scan_offsets (subject_entity r) (object_entity r) v) (\<lambda>v'.
     bind_err (bound_offsets v') (\<lambda>b.
     Inr (v', annotate r sub_typ obj_typ b)))))"

fun load_rows :: "offsets \<Rightarrow> raw_record list \<Rightarrow> error + annotated list" where
  "load_rows v [] = Inr []"
| "load_rows v (r # rs) =
     (case process_row v r of
        Inl e \<Rightarrow> Inl e
      | Inr (v', a) \<Rightarrow> (case load_rows v' rs of Inl e \<Rightarrow> Inl e | Inr as \<Rightarrow> Inr (a # as)))"

definition load_data :: "raw_record list \<Rightarrow> error + annotated list" where
  \<comment> \<open>the rows are those read from the csv file; no offset variable is bound at the start\<close>
  "load_data rows = load_rows unbound rows"

section \<open>\<open>tokenized_dataset\<close>\<close>

text \<open>
  The tokenizer is an object of an external library. The function is modelled over the
  four operations it calls, each of which may raise: \<open>'tk\<close> is the state of the
  tokenizer, \<open>'ids\<close> an encoded sentence, \<open>'batch\<close> the encoded batch.
\<close>

record ('tk, 'ids, 'batch) tokenizer =
  add_special_tokens :: "string list \<Rightarrow> 'tk \<Rightarrow> 'tk"
  batch_encode :: "'tk \<Rightarrow> string list \<Rightarrow> error + 'batch"
  encode :: "'tk \<Rightarrow> string \<Rightarrow> error + 'ids"
  decode :: "'tk \<Rightarrow> 'ids \<Rightarrow> error + string"

definition special_tokens :: "string list" where
  "special_tokens = [''[SUB]'', ''[/SUB]'', ''[OBJ]'', ''[/OBJ]'']"

definition check_decoded ::
  "('tk, 'ids, 'batch) tokenizer \<Rightarrow> 'tk \<Rightarrow> string list \<Rightarrow> nat \<Rightarrow> error + string" where
  \<comment> \<open>lines 99 and 100: \<open>list(dataset['sentence'])[i]\<close> raises beyond the last row\<close>
  "check_decoded T tk sents i =
     (if i < length sents
      then bind_err (encode T tk (sents ! i)) (\<lambda>text_enc. decode T tk text_enc)
      else Inl IndexError)"

fun check_loop ::
  "('tk, 'ids, 'batch) tokenizer \<Rightarrow> 'tk \<Rightarrow> string list \<Rightarrow> nat list \<Rightarrow> error + string list" where
  \<comment> \<open>the loop of line 98; the result is the list of the lines printed\<close>
  "check_loop T tk sents [] = Inr []"
| "check_loop T tk sents (i # is) =
     bind_err (check_decoded T tk sents i) (\<lambda>text_dec.
     bind_err (check_loop T tk sents is) (\<lambda>printed. Inr (text_dec # printed)))"

definition tokenized_dataset ::
  "('tk, 'ids, 'batch) tokenizer \<Rightarrow> 'tk \<Rightarrow> string list
     \<Rightarrow> error + ('tk \<times> string list \<times> 'batch)" where
  \<comment> \<open>the argument is the \<open>sentence\<close> column of the data set; the result is the state of
      the tokenizer, the lines printed and the value returned\<close>
  "tokenized_dataset T tk sents =
     (let tk' = add_special_tokens T special_tokens tk
      in bind_err (batch_encode T tk' sents) (\<lambda>tokenized_sentences.
         bind_err (check_loop T tk' sents [0..<10]) (\<lambda>printed.
         Inr (tk', printed, tokenized_sentences))))"

section \<open>\<open>label_to_num\<close>\<close>

text \<open>
  The table is the dictionary unpickled from \<open>dict_label_to_num.pkl\<close>; a subscript with
  a key that the dictionary lacks raises \<open>KeyError\<close> with that key.
\<close>

fun label_to_num :: "(string \<rightharpoonup> 'n) \<Rightarrow> string list \<Rightarrow> error + 'n list" where
  "label_to_num d [] = Inr []"
| "label_to_num d (v # vs) =
     (case d v of
        None \<Rightarrow> Inl (KeyError v)
      | Some n \<Rightarrow> (case label_to_num d vs of Inl e \<Rightarrow> Inl e | Inr ns \<Rightarrow> Inr (n # ns)))"

section \<open>Notions of the specification\<close>

definition valid_spans :: "string \<Rightarrow> int \<Rightarrow> int \<Rightarrow> int \<Rightarrow> int \<Rightarrow> bool" where
  \<comment> \<open>both spans lie within the sentence, end-inclusive, and do not intersect\<close>
  "valid_spans z ss se os oe =
     (0 \<le> ss \<and> ss \<le> se \<and> se < int (length z) \<and> 0 \<le> os \<and> os \<le> oe \<and> oe < int (length z)
      \<and> (se < os \<or> oe < ss))"


definition marked_at :: "string \<Rightarrow> int \<Rightarrow> string \<Rightarrow> string \<Rightarrow> string \<Rightarrow> bool" where
  \<comment> \<open>in \<open>m\<close> the opening marker starts at offset \<open>p\<close>, the text \<open>e\<close> follows it and the
      closing marker follows the text\<close>
  "marked_at m p e opening closing =
     (py_slice m p (p + int (length opening)) = opening
      \<and> py_slice m (p + int (length opening)) (p + int (length opening) + int (length e)) = e
      \<and> py_slice m (p + int (length opening) + int (length e))
           (p + int (length opening) + int (length e) + int (length closing)) = closing)"

definition marker_prefix :: "string \<Rightarrow> nat" where
  \<comment> \<open>the length of the marker that the text starts with, 0 when it starts with none\<close>
  "marker_prefix s =
     (if prefix ''[SUB]'' s then 5 else if prefix ''[/SUB]'' s then 6
      else if prefix ''[OBJ]'' s then 5 else if prefix ''[/OBJ]'' s then 6 else 0)"

fun strip_markers :: "string \<Rightarrow> string" where
  \<comment> \<open>the text with every occurrence of the four markers deleted, left to right\<close>
  "strip_markers [] = []"
| "strip_markers (c # cs) =
     (if marker_prefix (c # cs) = 0 then c # strip_markers cs
      else strip_markers (drop (marker_prefix (c # cs) - 1) cs))"

definition marker_free :: "string \<Rightarrow> bool" where
  \<comment> \<open>no marker occurs in the text\<close>
  "marker_free z = list_all (\<lambda>i. marker_prefix (drop i z) = 0) [0..<length z]"

definition key_within :: "string \<Rightarrow> string \<Rightarrow> nat \<Rightarrow> bool" where
  \<comment> \<open>the key occurs in \<open>x\<close> at a position below \<open>n\<close>\<close>
  "key_within key x n = list_ex (key_at key x) [0..<n]"

definition bad_int_at :: "string \<Rightarrow> string \<Rightarrow> nat \<Rightarrow> bool" where
  \<comment> \<open>at position \<open>i\<close> one of the two fields has a key that no integer follows\<close>
  "bad_int_at x y i =
     ((key_at ''start_idx'' x i \<and> isl (read_int x (i + 12)))
      \<or> (key_at ''end_idx'' x i \<and> isl (read_int x (i + 10)))
      \<or> (key_at ''start_idx'' y i \<and> isl (read_int y (i + 12)))
      \<or> (key_at ''end_idx'' y i \<and> isl (read_int y (i + 10))))"

definition bad_int_within :: "string \<Rightarrow> string \<Rightarrow> bool" where
  \<comment> \<open>the scan of the row meets a key that no integer follows\<close>
  "bad_int_within x y = list_ex (bad_int_at x y) [0..<length x]"


definition key_missing :: "string \<Rightarrow> string \<Rightarrow> bool" where
  \<comment> \<open>one of the four keys does not occur within the positions scanned\<close>
  "key_missing x y =
     (\<not> key_within ''start_idx'' x (length x) \<or> \<not> key_within ''end_idx'' x (length x)
      \<or> \<not> key_within ''start_idx'' y (length x) \<or> \<not> key_within ''end_idx'' y (length x))"

section \<open>Test data\<close>

definition entity_repr :: "string \<Rightarrow> string \<Rightarrow> string \<Rightarrow> string \<Rightarrow> string" where
  \<comment> \<open>the field format of the data set:
      \<open>{'word': '<text>', 'start_idx': <int>, 'end_idx': <int>, 'type': '<TAG>'}\<close>\<close>
  "entity_repr word start_idx end_idx typ =
     ''{'' @ [CHR 0x27] @ ''word'' @ [CHR 0x27] @ '': '' @ [CHR 0x27] @ word @ [CHR 0x27]
       @ '', '' @ [CHR 0x27] @ ''start_idx'' @ [CHR 0x27] @ '': '' @ start_idx
       @ '', '' @ [CHR 0x27] @ ''end_idx'' @ [CHR 0x27] @ '': '' @ end_idx
       @ '', '' @ [CHR 0x27] @ ''type'' @ [CHR 0x27] @ '': '' @ [CHR 0x27] @ typ @ [CHR 0x27]
       @ ''}''"

definition entity_no_end :: "string \<Rightarrow> string \<Rightarrow> string \<Rightarrow> string" where
  \<comment> \<open>a field without the key \<open>end_idx\<close>\<close>
  "entity_no_end word start_idx typ =
     ''{'' @ [CHR 0x27] @ ''word'' @ [CHR 0x27] @ '': '' @ [CHR 0x27] @ word @ [CHR 0x27]
       @ '', '' @ [CHR 0x27] @ ''start_idx'' @ [CHR 0x27] @ '': '' @ start_idx
       @ '', '' @ [CHR 0x27] @ ''type'' @ [CHR 0x27] @ '': '' @ [CHR 0x27] @ typ @ [CHR 0x27]
       @ ''}''"

definition kim_row :: raw_record where
  "kim_row = \<lparr>rid = 0, sentence = ''Kim works at Acme'',
     subject_entity = entity_repr ''Kim'' ''0'' ''2'' ''PER'',
     object_entity = entity_repr ''Acme'' ''13'' ''16'' ''ORG'',
     label = ''org:members''\<rparr>"

definition char_tokenizer :: "(string list, nat list, nat list list) tokenizer" where
  \<comment> \<open>a tokenizer none of whose operations raises: one token per character\<close>
  "char_tokenizer =
     \<lparr>add_special_tokens = (\<lambda>toks tk. tk @ filter (\<lambda>t. t \<notin> set tk) toks),
      batch_encode = (\<lambda>tk sents. Inr (map (map of_char) sents)),
      encode = (\<lambda>tk s. Inr (map of_char s)),
      decode = (\<lambda>tk ids. Inr (map char_of ids))\<rparr>"

definition alice_row :: raw_record where
  "alice_row = \<lparr>rid = 1, sentence = ''Alice runs Initech'',
     subject_entity = entity_no_end ''Alice'' ''0'' ''PER'',
     object_entity = entity_repr ''Initech'' ''11'' ''17'' ''ORG'',
     label = ''org:top_members/employees''\<rparr>"


definition far_keys_row :: raw_record where
  "far_keys_row = \<lparr>rid = 3, sentence = ''Kim works at Acme'',
     subject_entity = entity_repr ''Kim'' ''0'' ''2'' ''PER'',
     object_entity = entity_repr (replicate 60 CHR ''w'') ''4'' ''8'' ''ORG'',
     label = ''no_relation''\<rparr>"

definition bad_int_row :: raw_record where
  "bad_int_row = \<lparr>rid = 4, sentence = ''Kim works at Acme'',
     subject_entity = entity_repr ''Kim'' ''0'' ''two'' ''PER'',
     object_entity = entity_repr ''Acme'' ''13'' ''16'' ''ORG'',
     label = ''no_relation''\<rparr>"

definition bracket_row :: raw_record where
  \<comment> \<open>a sentence in which the text of a marker occurs\<close>
  "bracket_row = \<lparr>rid = 5, sentence = ''[SUB]a b'',
     subject_entity = entity_repr ''a'' ''5'' ''5'' ''PER'',
     object_entity = entity_repr ''b'' ''7'' ''7'' ''ORG'',
     label = ''no_relation''\<rparr>"

definition long_row :: raw_record where
  \<comment> \<open>an object whose field is so much longer than the subject field that its keys
      lie beyond the length of the subject field\<close>
  "long_row = \<lparr>rid = 6,
     sentence = ''Kim joined International Federation of Red Cross and Red Crescent Societies'',
     subject_entity = entity_repr ''Kim'' ''0'' ''2'' ''PER'',
     object_entity =
       entity_repr ''International Federation of Red Cross and Red Crescent Societies''
         ''11'' ''74'' ''ORG'',
     label = ''per:employee_of''\<rparr>"

section \<open>The scenario of the specification\<close>

text \<open>
  Claim C5. For the sentence \<open>Kim works at Acme\<close> with the subject \<open>Kim\<close> at 0 to 2 of
  type \<open>PER\<close> and the object \<open>Acme\<close> at 13 to 16 of type \<open>ORG\<close>, both in the field
  format of the data set, \<open>load_data\<close> returns the marked sentence
  \<open>[SUB]Kim[/SUB] works at [OBJ]Acme[/OBJ]\<close>.
\<close>

theorem kim_scenario:
  "load_data [kim_row] =
     Inr [\<lparr>a_id = 0, a_sentence = ''[SUB]Kim[/SUB] works at [OBJ]Acme[/OBJ]'',
           a_subject_entity = ''Kim'', a_object_entity = ''Acme'',
           a_subject_type = ''PER'', a_object_type = ''ORG'',
           a_label = ''org:members'', a_subject_idx = (0, 2), a_object_idx = (13, 16)\<rparr>]"
  by code_simp

section \<open>The check of the decoded sentences\<close>

text \<open>
  Claim C6. The check of the decoded sentences should never abort the encoding, whatever
  the number of rows. The loop of \<open>tokenized_dataset\<close> reads the first ten sentences
  without looking at the number of rows: on a data set of three rows, with a tokenizer
  that never raises and after the batch has been encoded, the fourth read raises
  \<open>IndexError\<close> and no batch is returned.
\<close>

theorem check_aborts_short_dataset:
  "batch_encode char_tokenizer (add_special_tokens char_tokenizer special_tokens [])
       [''a'', ''b'', ''c''] = Inr [[97], [98], [99]]
   \<and> tokenized_dataset char_tokenizer [] [''a'', ''b'', ''c''] = Inl IndexError"
  by code_simp

section \<open>Conversion of the labels\<close>

lemma label_to_num_cases:
  "label_to_num d ls =
     (if \<forall>v \<in> set ls. d v \<noteq> None then Inr (map (\<lambda>v. the (d v)) ls)
      else Inl (KeyError (hd (filter (\<lambda>v. d v = None) ls))))"
  by (induction ls) (simp_all split: option.split)

text \<open>
  Claim C7. For every list of labels, \<open>label_to_num\<close> raises exactly when some label of
  the list is absent from the table, and otherwise returns the indices of the labels in
  the order of the list. The error of the specification, \<open>UnknownLabelError\<close>, is the
  \<open>KeyError\<close> of the dictionary subscript; it carries the first absent label.
\<close>

theorem label_to_num_total:
  "label_to_num d ls =
     (if \<forall>v \<in> set ls. v \<in> dom d then Inr (map (\<lambda>v. the (d v)) ls)
      else Inl (KeyError (hd (filter (\<lambda>v. v \<notin> dom d) ls))))"
  by (simp add: label_to_num_cases [of d ls] dom_def)

theorem label_to_num_total_witness:
  "label_to_num [''no_relation'' \<mapsto> (0::int), ''org:members'' \<mapsto> 1]
       [''org:members'', ''no_relation''] = Inr [1, 0]
   \<and> label_to_num [''no_relation'' \<mapsto> (0::int), ''org:members'' \<mapsto> 1]
       [''org:members'', ''per:title''] = Inl (KeyError ''per:title'')"
  using label_to_num_total [of "[''no_relation'' \<mapsto> (0::int), ''org:members'' \<mapsto> 1]"
      "[''org:members'', ''no_relation'']"]
    label_to_num_total [of "[''no_relation'' \<mapsto> (0::int), ''org:members'' \<mapsto> 1]"
      "[''org:members'', ''per:title'']"]
  by simp

section \<open>The scan for the offsets\<close>

lemma read_int_error: "read_int x k = Inl e \<Longrightarrow> e = ValueError"
  by (auto simp: read_int_def split: option.splits)

lemma scan_key_error: "scan_key key skip x i upd v = Inl e \<Longrightarrow> e = ValueError"
  by (auto simp: scan_key_def split: if_splits sum.splits dest: read_int_error)

lemma scan_step_error: "scan_step x y i v = Inl e \<Longrightarrow> e = ValueError"
  by (auto simp: scan_step_def bind_err_def split: sum.splits dest: scan_key_error)

lemma scan_step_isl: "isl (scan_step x y i v) = bad_int_at x y i"
  unfolding scan_step_def bad_int_at_def bind_err_def
  by (auto simp: scan_key_def split: sum.splits)

lemma scan_loop_error: "scan_loop x y is v = Inl e \<Longrightarrow> e = ValueError"
  by (induction "is" arbitrary: v) (auto split: sum.splits dest: scan_step_error)

lemma scan_loop_isl: "isl (scan_loop x y is v) = list_ex (bad_int_at x y) is"
proof (induction "is" arbitrary: v)
  case Nil
  show ?case by simp
next
  case (Cons i "is")
  show ?case
  proof (cases "scan_step x y i v")
    case (Inl e)
    then have "bad_int_at x y i" using scan_step_isl [of x y i v] by simp
    with Inl show ?thesis by simp
  next
    case (Inr v')
    then have "\<not> bad_int_at x y i" using scan_step_isl [of x y i v] by simp
    with Inr Cons.IH [of v'] show ?thesis by simp
  qed
qed

lemma scan_step_frame:
  assumes "scan_step x y i v = Inr v'"
  shows "(\<not> key_at ''start_idx'' x i \<longrightarrow> sub_start v' = sub_start v)
       \<and> (\<not> key_at ''end_idx'' x i \<longrightarrow> sub_end v' = sub_end v)
       \<and> (\<not> key_at ''start_idx'' y i \<longrightarrow> obj_start v' = obj_start v)
       \<and> (\<not> key_at ''end_idx'' y i \<longrightarrow> obj_end v' = obj_end v)"
  using assms unfolding scan_step_def bind_err_def scan_key_def
  by (auto split: sum.splits if_splits)


lemma scan_loop_frame:
  assumes "scan_loop x y is v = Inr v'"
  shows "(\<not> list_ex (key_at ''start_idx'' x) is \<longrightarrow> sub_start v' = sub_start v)
       \<and> (\<not> list_ex (key_at ''end_idx'' x) is \<longrightarrow> sub_end v' = sub_end v)
       \<and> (\<not> list_ex (key_at ''start_idx'' y) is \<longrightarrow> obj_start v' = obj_start v)
       \<and> (\<not> list_ex (key_at ''end_idx'' y) is \<longrightarrow> obj_end v' = obj_end v)"
  using assms
proof (induction "is" arbitrary: v)
  case Nil
  then show ?case by simp
next
  case (Cons i "is")
  from Cons.prems obtain w where w: "scan_step x y i v = Inr w" "scan_loop x y is w = Inr v'"
    by (auto split: sum.splits)
  from scan_step_frame [OF w(1)] Cons.IH [OF w(2)] show ?case by simp
qed


lemma bound_offsets_Inr:
  "bound_offsets v = Inr (ss, se, os, oe) \<longleftrightarrow>
     sub_start v = Some ss \<and> sub_end v = Some se \<and> obj_start v = Some os \<and> obj_end v = Some oe"
  by (auto simp: bound_offsets_def split: option.splits)

lemma bound_offsets_Inl:
  "bound_offsets v = Inl e \<longleftrightarrow>
     e = UnboundLocalError
     \<and> (sub_start v = None \<or> sub_end v = None \<or> obj_start v = None \<or> obj_end v = None)"
  by (auto simp: bound_offsets_def split: option.splits)

lemma process_row_Inr:
  "process_row v r = Inr (v', a) \<longleftrightarrow>
     (\<exists>st ot b. entity_type (subject_entity r) = Inr st \<and> entity_type (object_entity r) = Inr ot
        \<and> scan_offsets (subject_entity r) (object_entity r) v = Inr v'
        \<and> bound_offsets v' = Inr b \<and> a = annotate r st ot b)"
  by (auto simp: process_row_def bind_err_def split: sum.splits)

lemma process_row_typed:
  assumes "entity_type (subject_entity r) = Inr st" and "entity_type (object_entity r) = Inr ot"
  shows "process_row v r =
     bind_err (scan_offsets (subject_entity r) (object_entity r) v) (\<lambda>v'.
     bind_err (bound_offsets v') (\<lambda>b. Inr (v', annotate r st ot b)))"
  using assms by (simp add: process_row_def bind_err_def)

lemma scan_offsets_isl:
  "isl (scan_offsets x y v) = bad_int_within x y"
  by (simp add: scan_offsets_def bad_int_within_def scan_loop_isl)

lemma scan_offsets_bad: "bad_int_within x y \<Longrightarrow> scan_offsets x y v = Inl ValueError"
proof -
  assume "bad_int_within x y"
  then have "isl (scan_offsets x y v)" by (simp add: scan_offsets_isl)
  then obtain e where e: "scan_offsets x y v = Inl e" by (cases "scan_offsets x y v") auto
  then have "e = ValueError" unfolding scan_offsets_def by (rule scan_loop_error)
  with e show ?thesis by simp
qed

lemma scan_offsets_good:
  "\<not> bad_int_within x y \<Longrightarrow> \<exists>v'. scan_offsets x y v = Inr v'"
  using scan_offsets_isl [of x y v] by (cases "scan_offsets x y v") auto

lemma annotate_idx:
  "a_subject_idx (annotate r st ot (ss, se, os, oe)) = (ss, se)"
  "a_object_idx (annotate r st ot (ss, se, os, oe)) = (os, oe)"
  "a_sentence (annotate r st ot (ss, se, os, oe)) = mark_sentence (sentence r) ss se os oe"
  "a_subject_entity (annotate r st ot (ss, se, os, oe)) = py_slice (sentence r) ss (se + 1)"
  "a_object_entity (annotate r st ot (ss, se, os, oe)) = py_slice (sentence r) os (oe + 1)"
  by (simp_all add: annotate_def)

lemma process_row_offsets:
  assumes "process_row v r = Inr (v', a)"
  shows "scan_offsets (subject_entity r) (object_entity r) v = Inr v'"
    and "sub_start v' = Some (fst (a_subject_idx a))"
    and "sub_end v' = Some (snd (a_subject_idx a))"
    and "obj_start v' = Some (fst (a_object_idx a))"
    and "obj_end v' = Some (snd (a_object_idx a))"
proof -
  from assms obtain st ot b where
    s: "scan_offsets (subject_entity r) (object_entity r) v = Inr v'"
    and b: "bound_offsets v' = Inr b" and a: "a = annotate r st ot b"
    unfolding process_row_Inr by blast
  obtain ss se os oe where q: "b = (ss, se, os, oe)" by (cases b) auto
  from s show "scan_offsets (subject_entity r) (object_entity r) v = Inr v'" .
  from b a q show "sub_start v' = Some (fst (a_subject_idx a))"
    "sub_end v' = Some (snd (a_subject_idx a))"
    "obj_start v' = Some (fst (a_object_idx a))"
    "obj_end v' = Some (snd (a_object_idx a))"
    by (simp_all add: bound_offsets_Inr annotate_idx)
qed










lemma key_missing_first_row:
  assumes st: "entity_type (subject_entity r) = Inr st"
    and ot: "entity_type (object_entity r) = Inr ot"
    and ok: "\<not> bad_int_within (subject_entity r) (object_entity r)"
    and k: "key_missing (subject_entity r) (object_entity r)"
  shows "process_row unbound r = Inl UnboundLocalError"
proof -
  let ?x = "subject_entity r" and ?y = "object_entity r"
  from scan_offsets_good [OF ok] obtain v' where v': "scan_offsets ?x ?y unbound = Inr v'"
    by blast
  then have "scan_loop ?x ?y [0..<length ?x] unbound = Inr v'" by (simp add: scan_offsets_def)
  from scan_loop_frame [OF this] k
  have "sub_start v' = None \<or> sub_end v' = None \<or> obj_start v' = None \<or> obj_end v' = None"
    by (auto simp: key_missing_def key_within_def unbound_def)
  then have "bound_offsets v' = Inl UnboundLocalError" by (simp add: bound_offsets_Inl)
  with v' show ?thesis by (simp add: process_row_typed [OF st ot] bind_err_def)
qed


lemma load_data_first_error:
  "process_row unbound r = Inl e \<Longrightarrow> load_data (r # rs) = Inl e"
  by (simp add: load_data_def)


section \<open>Keys of the object field beyond the length of the subject field\<close>

text \<open>
  Claim C9. The scan tests both fields at the positions of the subject field only. For
  every record in which a key marker of the object field, \<open>start_idx\<close> or \<open>end_idx\<close>,
  occurs at no position below the length of the subject field, that marker is never
  matched: when the row is annotated, the object offset it records is the value the
  variable had before the row, not a value read from the row's own object field.
\<close>

theorem object_keys_beyond_scan:
  assumes "process_row v r = Inr (v', a)"
  shows "(\<not> key_within ''start_idx'' (object_entity r) (length (subject_entity r))
            \<longrightarrow> obj_start v = Some (fst (a_object_idx a)))
       \<and> (\<not> key_within ''end_idx'' (object_entity r) (length (subject_entity r))
            \<longrightarrow> obj_end v = Some (snd (a_object_idx a)))"
proof -
  note p = process_row_offsets [OF assms]
  from p(1) have "scan_loop (subject_entity r) (object_entity r) [0..<length (subject_entity r)] v
      = Inr v'" by (simp add: scan_offsets_def)
  from scan_loop_frame [OF this] p(4,5) show ?thesis by (simp add: key_within_def)
qed

theorem object_keys_beyond_scan_witness:
  "process_row \<lparr>sub_start = Some 9, sub_end = Some 10, obj_start = Some 13, obj_end = Some 16\<rparr>
       far_keys_row
     = Inr (\<lparr>sub_start = Some 0, sub_end = Some 2, obj_start = Some 13, obj_end = Some 16\<rparr>,
        \<lparr>a_id = 3, a_sentence = ''[SUB]Kim[/SUB] works at [OBJ]Acme[/OBJ]'',
         a_subject_entity = ''Kim'', a_object_entity = ''Acme'',
         a_subject_type = ''PER'', a_object_type = ''ORG'',
         a_label = ''no_relation'', a_subject_idx = (0, 2), a_object_idx = (13, 16)\<rparr>)
   \<and> \<not> key_within ''start_idx'' (object_entity far_keys_row) (length (subject_entity far_keys_row))
   \<and> \<not> key_within ''end_idx'' (object_entity far_keys_row) (length (subject_entity far_keys_row))
   \<and> key_within ''start_idx'' (object_entity far_keys_row) (length (object_entity far_keys_row))
   \<and> key_within ''end_idx'' (object_entity far_keys_row) (length (object_entity far_keys_row))
   \<and> obj_start \<lparr>sub_start = Some 9, sub_end = Some 10, obj_start = Some 13, obj_end = Some 16\<rparr>
       = Some (fst (13::int, 16::int))
   \<and> obj_end \<lparr>sub_start = Some 9, sub_end = Some 10, obj_start = Some 13, obj_end = Some 16\<rparr>
       = Some (snd (13::int, 16::int))"
proof -
  let ?v = "\<lparr>sub_start = Some 9, sub_end = Some 10, obj_start = Some 13, obj_end = Some 16\<rparr>"
  let ?v' = "\<lparr>sub_start = Some 0, sub_end = Some 2, obj_start = Some 13, obj_end = Some 16\<rparr>"
  let ?a = "\<lparr>a_id = 3, a_sentence = ''[SUB]Kim[/SUB] works at [OBJ]Acme[/OBJ]'',
         a_subject_entity = ''Kim'', a_object_entity = ''Acme'',
         a_subject_type = ''PER'', a_object_type = ''ORG'',
         a_label = ''no_relation'', a_subject_idx = (0, 2), a_object_idx = (13, 16)\<rparr>"
  have p: "process_row ?v far_keys_row = Inr (?v', ?a)" by code_simp
  have k1: "\<not> key_within ''start_idx'' (object_entity far_keys_row)
      (length (subject_entity far_keys_row))" by code_simp
  have k2: "\<not> key_within ''end_idx'' (object_entity far_keys_row)
      (length (subject_entity far_keys_row))" by code_simp
  have k3: "key_within ''start_idx'' (object_entity far_keys_row)
      (length (object_entity far_keys_row))" by code_simp
  have k4: "key_within ''end_idx'' (object_entity far_keys_row)
      (length (object_entity far_keys_row))" by code_simp
  from object_keys_beyond_scan [OF p] k1 k2
  have "obj_start ?v = Some (fst (a_object_idx ?a))" "obj_end ?v = Some (snd (a_object_idx ?a))"
    by blast+
  then have "obj_start ?v = Some (fst (13::int, 16::int))" "obj_end ?v = Some (snd (13::int, 16::int))"
    by simp_all
  with p k1 k2 k3 k4 show ?thesis by blast
qed

section \<open>Errors of the span parsing\<close>

text \<open>
  Claim C3, as stated: a record in which an entity field lacks a key marker never
  succeeds and fails with a \<open>MalformedSpanError\<close> that names the row. It does not hold:
  the second row below has no \<open>end_idx\<close> in its subject field, and \<open>load_data\<close> returns
  an annotated record for it, with the end offset of the row before.
\<close>

theorem missing_end_idx_accepted:
  "\<not> key_within ''end_idx'' (subject_entity alice_row) (length (subject_entity alice_row))
   \<and> load_data [kim_row, alice_row] =
       Inr [\<lparr>a_id = 0, a_sentence = ''[SUB]Kim[/SUB] works at [OBJ]Acme[/OBJ]'',
             a_subject_entity = ''Kim'', a_object_entity = ''Acme'',
             a_subject_type = ''PER'', a_object_type = ''ORG'',
             a_label = ''org:members'', a_subject_idx = (0, 2), a_object_idx = (13, 16)\<rparr>,
            \<lparr>a_id = 1, a_sentence = ''[SUB]Ali[/SUB]ce runs [OBJ]Initech[/OBJ]'',
             a_subject_entity = ''Ali'', a_object_entity = ''Initech'',
             a_subject_type = ''PER'', a_object_type = ''ORG'',
             a_label = ''org:top_members/employees'', a_subject_idx = (0, 2),
             a_object_idx = (11, 17)\<rparr>]"
  by code_simp

text \<open>
  Claim C3, amended. There is no typed error and no error names the row. For a record
  whose type tags can be extracted: when the scan meets a key marker that no valid integer
  follows (read from 12 characters after the start of \<open>start_idx\<close>, from 10 after the
  start of \<open>end_idx\<close>, up to the next comma, stripped), the row and \<open>load_data\<close> fail with
  \<open>ValueError\<close>; when the record is the first row, every integer met is valid and one of
  the four key markers does not occur within the positions scanned, \<open>load_data\<close> fails with
  \<open>UnboundLocalError\<close>.
\<close>

theorem span_errors_untyped:
  assumes "entity_type (subject_entity r) = Inr st"
    and "entity_type (object_entity r) = Inr ot"
  shows "(bad_int_within (subject_entity r) (object_entity r)
            \<longrightarrow> process_row v r = Inl ValueError \<and> load_data (r # rs) = Inl ValueError)
       \<and> (\<not> bad_int_within (subject_entity r) (object_entity r)
            \<and> key_missing (subject_entity r) (object_entity r)
            \<longrightarrow> load_data (r # rs) = Inl UnboundLocalError)"
proof (intro conjI impI)
  assume b: "bad_int_within (subject_entity r) (object_entity r)"
  show "process_row v r = Inl ValueError" for v
    by (simp add: process_row_typed [OF assms] scan_offsets_bad [OF b] bind_err_def)
  then show "load_data (r # rs) = Inl ValueError" by (rule load_data_first_error)
next
  assume "\<not> bad_int_within (subject_entity r) (object_entity r)
    \<and> key_missing (subject_entity r) (object_entity r)"
  then have "process_row unbound r = Inl UnboundLocalError"
    using key_missing_first_row [OF assms] by blast
  then show "load_data (r # rs) = Inl UnboundLocalError" by (rule load_data_first_error)
qed

theorem span_errors_untyped_witness:
  "entity_type (subject_entity bad_int_row) = Inr ''PER''
   \<and> entity_type (object_entity bad_int_row) = Inr ''ORG''
   \<and> bad_int_within (subject_entity bad_int_row) (object_entity bad_int_row)
   \<and> load_data [bad_int_row, kim_row] = Inl ValueError
   \<and> entity_type (subject_entity alice_row) = Inr ''PER''
   \<and> entity_type (object_entity alice_row) = Inr ''ORG''
   \<and> \<not> bad_int_within (subject_entity alice_row) (object_entity alice_row)
   \<and> key_missing (subject_entity alice_row) (object_entity alice_row)
   \<and> load_data [alice_row, kim_row] = Inl UnboundLocalError"
proof -
  have b1: "entity_type (subject_entity bad_int_row) = Inr ''PER''" by code_simp
  have b2: "entity_type (object_entity bad_int_row) = Inr ''ORG''" by code_simp
  have b3: "bad_int_within (subject_entity bad_int_row) (object_entity bad_int_row)"
    by code_simp
  have a1: "entity_type (subject_entity alice_row) = Inr ''PER''" by code_simp
  have a2: "entity_type (object_entity alice_row) = Inr ''ORG''" by code_simp
  have a3: "\<not> bad_int_within (subject_entity alice_row) (object_entity alice_row)"
    by code_simp
  have a4: "key_missing (subject_entity alice_row) (object_entity alice_row)" by code_simp
  from span_errors_untyped [OF b1 b2, of unbound "[kim_row]"] b3
  have c1: "load_data [bad_int_row, kim_row] = Inl ValueError" by blast
  from span_errors_untyped [OF a1 a2, of unbound "[kim_row]"] a3 a4
  have c2: "load_data [alice_row, kim_row] = Inl UnboundLocalError" by blast
  from b1 b2 b3 a1 a2 a3 a4 c1 c2 show ?thesis by blast
qed

section \<open>Offsets that persist from row to row\<close>



section \<open>Slices and the insertion of the markers\<close>

lemma py_norm_nat: "py_norm n (int i) = min n i"
  by (simp add: py_norm_def)

lemma py_upto_app: "py_upto (xs @ ys) (int (length xs)) = xs"
  by (simp add: py_upto_def py_norm_nat)

lemma py_from_app: "py_from (xs @ ys) (int (length xs)) = ys"
  by (simp add: py_from_def py_norm_nat)

lemma py_slice_app:
  "py_slice (xs @ ys @ zs) (int (length xs)) (int (length xs + length ys)) = ys"
  by (simp add: py_slice_def py_norm_nat del: of_nat_add)

lemma py_slice_nat: "py_slice z (int i) (int j) = take (j - i) (drop i z)"
  by (auto simp: py_slice_def py_norm_nat min_def)

lemma mark_subject_first:
  assumes "e1 \<noteq> []" and "e2 \<noteq> []"
  shows "mark_sentence (a @ e1 @ b @ e2 @ c)
           (int (length a)) (int (length a + length e1) - 1)
           (int (length a + length e1 + length b))
           (int (length a + length e1 + length b + length e2) - 1)
         = a @ ''[SUB]'' @ e1 @ ''[/SUB]'' @ b @ ''[OBJ]'' @ e2 @ ''[/OBJ]'' @ c"
proof -
  let ?z = "a @ e1 @ b @ e2 @ c"
  let ?z1 = "a @ ''[SUB]'' @ e1 @ ''[/SUB]'' @ b @ e2 @ c"
  let ?p = "a @ ''[SUB]'' @ e1 @ ''[/SUB]'' @ b"
  have lt: "int (length a) < int (length a + length e1 + length b)"
    using assms(1) by (cases e1) auto
  have 1: "py_upto ?z (int (length a)) = a" by (rule py_upto_app)
  have 2: "py_slice ?z (int (length a)) (int (length a + length e1) - 1 + 1) = e1"
    using py_slice_app [of a e1 "b @ e2 @ c"] by simp
  have 3: "py_from ?z (int (length a + length e1) - 1 + 1) = b @ e2 @ c"
    using py_from_app [of "a @ e1" "b @ e2 @ c"] by simp
  have l: "int (length a + length e1 + length b) + 11 = int (length ?p)" by simp
  have 4: "py_upto ?z1 (int (length a + length e1 + length b) + 11) = ?p"
    unfolding l using py_upto_app [of ?p "e2 @ c"] by simp
  have l2: "int (length a + length e1 + length b + length e2) - 1 + 12
      = int (length ?p + length e2)" by simp
  have 5: "py_slice ?z1 (int (length a + length e1 + length b) + 11)
      (int (length a + length e1 + length b + length e2) - 1 + 12) = e2"
    unfolding l l2 using py_slice_app [of ?p e2 c] by simp
  have l3: "int (length a + length e1 + length b + length e2) - 1 + 12
      = int (length (?p @ e2))" by simp
  have 6: "py_from ?z1 (int (length a + length e1 + length b + length e2) - 1 + 12) = c"
    unfolding l3 using py_from_app [of "?p @ e2" c] by simp
  show ?thesis
    unfolding mark_sentence_def Let_def 1 2 3 4 5 6 using lt by simp
qed


lemma mark_object_first:
  assumes "e1 \<noteq> []" and "e2 \<noteq> []"
  shows "mark_sentence (a @ e2 @ b @ e1 @ c)
           (int (length a + length e2 + length b))
           (int (length a + length e2 + length b + length e1) - 1)
           (int (length a)) (int (length a + length e2) - 1)
         = a @ ''[OBJ]'' @ e2 @ ''[/OBJ]'' @ b @ ''[SUB]'' @ e1 @ ''[/SUB]'' @ c"
proof -
  let ?z = "a @ e2 @ b @ e1 @ c"
  let ?z1 = "a @ ''[OBJ]'' @ e2 @ ''[/OBJ]'' @ b @ e1 @ c"
  let ?p = "a @ ''[OBJ]'' @ e2 @ ''[/OBJ]'' @ b"
  have lt: "\<not> int (length a + length e2 + length b) < int (length a)" by simp
  have 1: "py_upto ?z (int (length a)) = a" by (rule py_upto_app)
  have 2: "py_slice ?z (int (length a)) (int (length a + length e2) - 1 + 1) = e2"
    using py_slice_app [of a e2 "b @ e1 @ c"] by simp
  have 3: "py_from ?z (int (length a + length e2) - 1 + 1) = b @ e1 @ c"
    using py_from_app [of "a @ e2" "b @ e1 @ c"] by simp
  have l: "int (length a + length e2 + length b) + 11 = int (length ?p)" by simp
  have 4: "py_upto ?z1 (int (length a + length e2 + length b) + 11) = ?p"
    unfolding l using py_upto_app [of ?p "e1 @ c"] by simp
  have l2: "int (length a + length e2 + length b + length e1) - 1 + 12
      = int (length ?p + length e1)" by simp
  have 5: "py_slice ?z1 (int (length a + length e2 + length b) + 11)
      (int (length a + length e2 + length b + length e1) - 1 + 12) = e1"
    unfolding l l2 using py_slice_app [of ?p e1 c] by simp
  have l3: "int (length a + length e2 + length b + length e1) - 1 + 12
      = int (length (?p @ e1))" by simp
  have 6: "py_from ?z1 (int (length a + length e2 + length b + length e1) - 1 + 12) = c"
    unfolding l3 using py_from_app [of "?p @ e1" c] by simp
  show ?thesis
    unfolding mark_sentence_def Let_def 1 2 3 4 5 6 using lt by simp
qed

lemma drop_split: "i \<le> j \<Longrightarrow> drop i z = take (j - i) (drop i z) @ drop j z"
proof -
  assume "i \<le> j"
  then have e: "j - i + i = j" by simp
  have "drop (j - i) (drop i z) = drop j z" by (simp add: e)
  then show ?thesis by (metis append_take_drop_id)
qed

lemma two_spans_split:
  assumes "i \<le> j" and "j < k" and "k \<le> l" and "l < length z"
  shows "z = take i z @ take (Suc j - i) (drop i z) @ take (k - Suc j) (drop (Suc j) z)
             @ take (Suc l - k) (drop k z) @ drop (Suc l) z"
proof -
  have "z = take i z @ drop i z" by simp
  also have "drop i z = take (Suc j - i) (drop i z) @ drop (Suc j) z"
    using assms by (intro drop_split) simp
  also have "drop (Suc j) z = take (k - Suc j) (drop (Suc j) z) @ drop k z"
    using assms by (intro drop_split) simp
  also have "drop k z = take (Suc l - k) (drop k z) @ drop (Suc l) z"
    using assms by (intro drop_split) simp
  finally show ?thesis .
qed

lemma py_slice_app2:
  "py_slice (xs @ ys @ zs) (int (length xs)) (int (length xs) + int (length ys)) = ys"
  using py_slice_app [of xs ys zs] by simp

lemma marked_at_app:
  assumes "p = int (length A)"
  shows "marked_at (A @ opening @ E @ closing @ R) p E opening closing"
proof -
  have 1: "py_slice (A @ opening @ (E @ closing @ R)) (int (length A))
      (int (length A) + int (length opening)) = opening"
    by (rule py_slice_app2)
  have 2: "py_slice ((A @ opening) @ E @ (closing @ R)) (int (length (A @ opening)))
      (int (length (A @ opening)) + int (length E)) = E"
    by (rule py_slice_app2)
  have 3: "py_slice ((A @ opening @ E) @ closing @ R) (int (length (A @ opening @ E)))
      (int (length (A @ opening @ E)) + int (length closing)) = closing"
    by (rule py_slice_app2)
  from 1 2 3 show ?thesis
    unfolding marked_at_def assms by (simp add: add.assoc)
qed

lemma mark_nat_subject_first:
  assumes "i \<le> j" and "j < k" and "k \<le> l" and "l < length z"
  shows "mark_sentence z (int i) (int j) (int k) (int l) =
           take i z @ ''[SUB]'' @ take (Suc j - i) (drop i z) @ ''[/SUB]''
             @ take (k - Suc j) (drop (Suc j) z) @ ''[OBJ]'' @ take (Suc l - k) (drop k z)
             @ ''[/OBJ]'' @ drop (Suc l) z"
proof -
  define a where "a = take i z"
  define e1 where "e1 = take (Suc j - i) (drop i z)"
  define b where "b = take (k - Suc j) (drop (Suc j) z)"
  define e2 where "e2 = take (Suc l - k) (drop k z)"
  define c where "c = drop (Suc l) z"
  have z: "z = a @ e1 @ b @ e2 @ c"
    unfolding a_def e1_def b_def e2_def c_def using assms by (rule two_spans_split)
  have la: "length a = i" and le1: "length e1 = Suc j - i" and lb: "length b = k - Suc j"
    and le2: "length e2 = Suc l - k"
    using assms by (simp_all add: a_def e1_def b_def e2_def)
  have ne: "e1 \<noteq> []" "e2 \<noteq> []" using le1 le2 assms by auto
  have n: "int (length a) = int i" "int (length a + length e1) - 1 = int j"
    "int (length a + length e1 + length b) = int k"
    "int (length a + length e1 + length b + length e2) - 1 = int l"
    using assms la le1 lb le2 by auto
  have "mark_sentence z (int i) (int j) (int k) (int l) =
      mark_sentence (a @ e1 @ b @ e2 @ c) (int (length a)) (int (length a + length e1) - 1)
        (int (length a + length e1 + length b))
        (int (length a + length e1 + length b + length e2) - 1)"
    unfolding n using z by simp
  also have "\<dots> = a @ ''[SUB]'' @ e1 @ ''[/SUB]'' @ b @ ''[OBJ]'' @ e2 @ ''[/OBJ]'' @ c"
    using ne by (rule mark_subject_first)
  finally show ?thesis unfolding a_def e1_def b_def e2_def c_def .
qed

lemma mark_nat_object_first:
  assumes "i \<le> j" and "j < k" and "k \<le> l" and "l < length z"
  shows "mark_sentence z (int k) (int l) (int i) (int j) =
           take i z @ ''[OBJ]'' @ take (Suc j - i) (drop i z) @ ''[/OBJ]''
             @ take (k - Suc j) (drop (Suc j) z) @ ''[SUB]'' @ take (Suc l - k) (drop k z)
             @ ''[/SUB]'' @ drop (Suc l) z"
proof -
  define a where "a = take i z"
  define e2 where "e2 = take (Suc j - i) (drop i z)"
  define b where "b = take (k - Suc j) (drop (Suc j) z)"
  define e1 where "e1 = take (Suc l - k) (drop k z)"
  define c where "c = drop (Suc l) z"
  have z: "z = a @ e2 @ b @ e1 @ c"
    unfolding a_def e1_def b_def e2_def c_def using assms by (rule two_spans_split)
  have la: "length a = i" and le2: "length e2 = Suc j - i" and lb: "length b = k - Suc j"
    and le1: "length e1 = Suc l - k"
    using assms by (simp_all add: a_def e1_def b_def e2_def)
  have ne: "e1 \<noteq> []" "e2 \<noteq> []" using le1 le2 assms by auto
  have n: "int (length a) = int i" "int (length a + length e2) - 1 = int j"
    "int (length a + length e2 + length b) = int k"
    "int (length a + length e2 + length b + length e1) - 1 = int l"
    using assms la le1 lb le2 by auto
  have "mark_sentence z (int k) (int l) (int i) (int j) =
      mark_sentence (a @ e2 @ b @ e1 @ c) (int (length a + length e2 + length b))
        (int (length a + length e2 + length b + length e1) - 1)
        (int (length a)) (int (length a + length e2) - 1)"
    unfolding n using z by simp
  also have "\<dots> = a @ ''[OBJ]'' @ e2 @ ''[/OBJ]'' @ b @ ''[SUB]'' @ e1 @ ''[/SUB]'' @ c"
    using ne by (rule mark_object_first)
  finally show ?thesis unfolding a_def e1_def b_def e2_def c_def .
qed

lemma valid_spans_nat:
  assumes "valid_spans z ss se os oe"
  shows "ss = int (nat ss)" "se = int (nat se)" "os = int (nat os)" "oe = int (nat oe)"
    "nat ss \<le> nat se" "nat os \<le> nat oe" "nat se < length z" "nat oe < length z"
    "ss < os \<Longrightarrow> nat se < nat os" "\<not> ss < os \<Longrightarrow> nat oe < nat ss"
  using assms by (auto simp: valid_spans_def)

lemma mark_sentence_subject:
  assumes v: "valid_spans z ss se os oe"
  shows "marked_at (mark_sentence z ss se os oe) (if ss < os then ss else ss + 11)
           (py_slice z ss (se + 1)) ''[SUB]'' ''[/SUB]''"
proof -
  note n = valid_spans_nat [OF v]
  define i where "i = nat ss"
  define j where "j = nat se"
  define k where "k = nat os"
  define l where "l = nat oe"
  have eq: "ss = int i" "se = int j" "os = int k" "oe = int l"
    using n(1-4) by (simp_all add: i_def j_def k_def l_def)
  have sl: "py_slice z ss (se + 1) = take (Suc j - i) (drop i z)"
    using py_slice_nat [of z i "Suc j"] by (simp add: eq add.commute)
  show ?thesis
  proof (cases "ss < os")
    case True
    then have o: "i \<le> j" "j < k" "k \<le> l" "l < length z"
      using n(5-9) by (simp_all add: i_def j_def k_def l_def)
    have li: "int i = int (length (take i z))" using o by simp
    show ?thesis
      unfolding sl using True
      by (simp only: eq mark_nat_subject_first [OF o] if_True)
        (rule marked_at_app, rule li)
  next
    case False
    then have o: "k \<le> l" "l < i" "i \<le> j" "j < length z"
      using n(5-10) by (simp_all add: i_def j_def k_def l_def)
    let ?A = "take k z @ ''[OBJ]'' @ take (Suc l - k) (drop k z) @ ''[/OBJ]''
      @ take (i - Suc l) (drop (Suc l) z)"
    have li: "int i + 11 = int (length ?A)" using o by simp
    have m: "mark_sentence z (int i) (int j) (int k) (int l) =
        ?A @ ''[SUB]'' @ take (Suc j - i) (drop i z) @ ''[/SUB]'' @ drop (Suc j) z"
      using mark_nat_object_first [OF o] by simp
    have "marked_at (mark_sentence z (int i) (int j) (int k) (int l)) (int i + 11)
        (take (Suc j - i) (drop i z)) ''[SUB]'' ''[/SUB]''"
      unfolding m by (rule marked_at_app, rule li)
    with False show ?thesis unfolding sl by (simp only: eq if_False)
  qed
qed

lemma mark_sentence_object:
  assumes v: "valid_spans z ss se os oe"
  shows "marked_at (mark_sentence z ss se os oe) (if ss < os then os + 11 else os)
           (py_slice z os (oe + 1)) ''[OBJ]'' ''[/OBJ]''"
proof -
  note n = valid_spans_nat [OF v]
  define i where "i = nat ss"
  define j where "j = nat se"
  define k where "k = nat os"
  define l where "l = nat oe"
  have eq: "ss = int i" "se = int j" "os = int k" "oe = int l"
    using n(1-4) by (simp_all add: i_def j_def k_def l_def)
  have sl: "py_slice z os (oe + 1) = take (Suc l - k) (drop k z)"
    using py_slice_nat [of z k "Suc l"] by (simp add: eq add.commute)
  show ?thesis
  proof (cases "ss < os")
    case True
    then have o: "i \<le> j" "j < k" "k \<le> l" "l < length z"
      using n(5-9) by (simp_all add: i_def j_def k_def l_def)
    let ?A = "take i z @ ''[SUB]'' @ take (Suc j - i) (drop i z) @ ''[/SUB]''
      @ take (k - Suc j) (drop (Suc j) z)"
    have li: "int k + 11 = int (length ?A)" using o by simp
    have m: "mark_sentence z (int i) (int j) (int k) (int l) =
        ?A @ ''[OBJ]'' @ take (Suc l - k) (drop k z) @ ''[/OBJ]'' @ drop (Suc l) z"
      using mark_nat_subject_first [OF o] by simp
    have "marked_at (mark_sentence z (int i) (int j) (int k) (int l)) (int k + 11)
        (take (Suc l - k) (drop k z)) ''[OBJ]'' ''[/OBJ]''"
      unfolding m by (rule marked_at_app, rule li)
    with True show ?thesis unfolding sl by (simp only: eq if_True)
  next
    case False
    then have o: "k \<le> l" "l < i" "i \<le> j" "j < length z"
      using n(5-10) by (simp_all add: i_def j_def k_def l_def)
    have li: "int k = int (length (take k z))" using o by simp
    show ?thesis
      unfolding sl using False
      by (simp only: eq mark_nat_object_first [OF o] if_False)
        (rule marked_at_app, rule li)
  qed
qed

section \<open>Deleting the markers\<close>

lemma marker_prefix_zero:
  "marker_prefix s = 0 \<longleftrightarrow> (\<forall>m \<in> set special_tokens. \<not> prefix m s)"
  by (simp add: marker_prefix_def special_tokens_def)

lemma prefix_straddle:
  assumes "prefix m (u @ c # r)" and "c \<notin> set (tl m)" and "u \<noteq> []"
  shows "prefix m u"
proof -
  from assms(1) consider "prefix m u" | us where "m = u @ us" "prefix us (c # r)"
    unfolding prefix_append by blast
  then show ?thesis
  proof cases
    case 1
    then show ?thesis .
  next
    case 2
    show ?thesis
    proof (cases us)
      case Nil
      with 2 show ?thesis by simp
    next
      case (Cons d ds)
      with 2 have "d = c" by simp
      with 2 Cons assms(3) have "c \<in> set (tl m)" by (cases u) auto
      with assms(2) show ?thesis by simp
    qed
  qed
qed

lemma special_token_bracket:
  "m \<in> set special_tokens \<Longrightarrow> CHR ''['' \<notin> set (tl m) \<and> (\<exists>t. m = CHR ''['' # t)"
  by (auto simp: special_tokens_def)

lemma marker_prefix_bracket:
  assumes "u \<noteq> []" and "marker_prefix (u @ post) = 0"
  shows "marker_prefix (u @ CHR ''['' # r) = 0"
  unfolding marker_prefix_zero
proof
  fix m assume m: "m \<in> set special_tokens"
  show "\<not> prefix m (u @ CHR ''['' # r)"
  proof
    assume p: "prefix m (u @ CHR ''['' # r)"
    from special_token_bracket [OF m] have "CHR ''['' \<notin> set (tl m)" by blast
    with p have "prefix m u" using assms(1) by (rule prefix_straddle)
    then have "prefix m (u @ post)" by (rule prefix_prefix)
    with assms(2) m show False by (simp add: marker_prefix_zero)
  qed
qed

lemma strip_clean:
  "(\<forall>i<length xs. marker_prefix (drop i xs @ rest) = 0)
     \<Longrightarrow> strip_markers (xs @ rest) = xs @ strip_markers rest"
proof (induction xs)
  case Nil
  show ?case by simp
next
  case (Cons c cs)
  from Cons.prems have 0: "marker_prefix ((c # cs) @ rest) = 0" by auto
  have "\<forall>i<length cs. marker_prefix (drop i cs @ rest) = 0"
  proof (intro allI impI)
    fix i assume "i < length cs"
    with Cons.prems have "marker_prefix (drop (Suc i) (c # cs) @ rest) = 0" by auto
    then show "marker_prefix (drop i cs @ rest) = 0" by simp
  qed
  from Cons.IH [OF this] 0 show ?case by simp
qed

lemma marker_free_piece:
  assumes "marker_free (pre @ xs @ post)" and "i < length xs"
  shows "marker_prefix (drop i xs @ post) = 0"
proof -
  from assms(2) have "length pre + i < length (pre @ xs @ post)" by simp
  with assms(1) have "marker_prefix (drop (length pre + i) (pre @ xs @ post)) = 0"
    unfolding marker_free_def list_all_iff by (metis atLeastLessThan_iff set_upt zero_le)
  with assms(2) show ?thesis by simp
qed

lemma strip_special_token:
  "m \<in> set special_tokens \<Longrightarrow> strip_markers (m @ r) = strip_markers r"
  by (auto simp: special_tokens_def marker_prefix_def)

lemma strip_piece:
  assumes f: "marker_free (pre @ xs @ post)" and m: "m \<in> set special_tokens"
  shows "strip_markers (xs @ m @ r) = xs @ strip_markers r"
proof -
  from special_token_bracket [OF m] obtain t where t: "m = CHR ''['' # t" by blast
  have "\<forall>i<length xs. marker_prefix (drop i xs @ m @ r) = 0"
  proof (intro allI impI)
    fix i assume i: "i < length xs"
    then have "drop i xs \<noteq> []" by simp
    from marker_prefix_bracket [OF this marker_free_piece [OF f i], of "t @ r"]
    show "marker_prefix (drop i xs @ m @ r) = 0" by (simp add: t)
  qed
  from strip_clean [OF this] strip_special_token [OF m, of r] show ?thesis by simp
qed

lemma strip_end:
  assumes f: "marker_free (pre @ xs)"
  shows "strip_markers xs = xs"
proof -
  have "\<forall>i<length xs. marker_prefix (drop i xs @ []) = 0"
  proof (intro allI impI)
    fix i assume i: "i < length xs"
    from marker_free_piece [of pre xs "[]" i] f i show "marker_prefix (drop i xs @ []) = 0"
      by simp
  qed
  from strip_clean [OF this] show ?thesis by simp
qed

lemma strip_marked:
  assumes f: "marker_free (a @ e1 @ b @ e2 @ c)"
    and m: "m1 \<in> set special_tokens" "m2 \<in> set special_tokens"
      "m3 \<in> set special_tokens" "m4 \<in> set special_tokens"
  shows "strip_markers (a @ m1 @ e1 @ m2 @ b @ m3 @ e2 @ m4 @ c) = a @ e1 @ b @ e2 @ c"
proof -
  have 1: "strip_markers (a @ m1 @ e1 @ m2 @ b @ m3 @ e2 @ m4 @ c)
      = a @ strip_markers (e1 @ m2 @ b @ m3 @ e2 @ m4 @ c)"
    using f m(1) strip_piece [of "[]" a "e1 @ b @ e2 @ c" m1] by simp
  have 2: "strip_markers (e1 @ m2 @ b @ m3 @ e2 @ m4 @ c)
      = e1 @ strip_markers (b @ m3 @ e2 @ m4 @ c)"
    using f m(2) strip_piece [of a e1 "b @ e2 @ c" m2] by simp
  have 3: "strip_markers (b @ m3 @ e2 @ m4 @ c) = b @ strip_markers (e2 @ m4 @ c)"
    using f m(3) strip_piece [of "a @ e1" b "e2 @ c" m3] by simp
  have 4: "strip_markers (e2 @ m4 @ c) = e2 @ strip_markers c"
    using f m(4) strip_piece [of "a @ e1 @ b" e2 c m4] by simp
  have 5: "strip_markers c = c"
    using f strip_end [of "a @ e1 @ b @ e2" c] by simp
  show ?thesis by (simp only: 1 2 3 4 5)
qed

lemma strip_mark_sentence:
  assumes v: "valid_spans z ss se os oe" and f: "marker_free z"
  shows "strip_markers (mark_sentence z ss se os oe) = z"
proof -
  note n = valid_spans_nat [OF v]
  define i where "i = nat ss"
  define j where "j = nat se"
  define k where "k = nat os"
  define l where "l = nat oe"
  have eq: "ss = int i" "se = int j" "os = int k" "oe = int l"
    using n(1-4) by (simp_all add: i_def j_def k_def l_def)
  have t: "''[SUB]'' \<in> set special_tokens" "''[/SUB]'' \<in> set special_tokens"
    "''[OBJ]'' \<in> set special_tokens" "''[/OBJ]'' \<in> set special_tokens"
    by (simp_all add: special_tokens_def)
  show ?thesis
  proof (cases "ss < os")
    case True
    then have o: "i \<le> j" "j < k" "k \<le> l" "l < length z"
      using n(5-9) by (simp_all add: i_def j_def k_def l_def)
    note s = two_spans_split [OF o]
    have "marker_free (take i z @ take (Suc j - i) (drop i z)
      @ take (k - Suc j) (drop (Suc j) z) @ take (Suc l - k) (drop k z) @ drop (Suc l) z)"
      using f by (simp only: s [symmetric])
    note strip_marked [OF this t(1) t(2) t(3) t(4)]
    then have "strip_markers (mark_sentence z (int i) (int j) (int k) (int l)) =
      take i z @ take (Suc j - i) (drop i z)
      @ take (k - Suc j) (drop (Suc j) z) @ take (Suc l - k) (drop k z) @ drop (Suc l) z"
      by (simp only: mark_nat_subject_first [OF o])
    also have "\<dots> = z" by (rule s [symmetric])
    finally show ?thesis by (simp only: eq)
  next
    case False
    then have o: "k \<le> l" "l < i" "i \<le> j" "j < length z"
      using n(5-10) by (simp_all add: i_def j_def k_def l_def)
    note s = two_spans_split [OF o]
    have "marker_free (take k z @ take (Suc l - k) (drop k z)
      @ take (i - Suc l) (drop (Suc l) z) @ take (Suc j - i) (drop i z) @ drop (Suc j) z)"
      using f by (simp only: s [symmetric])
    note strip_marked [OF this t(3) t(4) t(1) t(2)]
    then have "strip_markers (mark_sentence z (int i) (int j) (int k) (int l)) =
      take k z @ take (Suc l - k) (drop k z)
      @ take (i - Suc l) (drop (Suc l) z) @ take (Suc j - i) (drop i z) @ drop (Suc j) z"
      by (simp only: mark_nat_object_first [OF o])
    also have "\<dots> = z" by (rule s [symmetric])
    finally show ?thesis by (simp only: eq)
  qed
qed



section \<open>The rows of the result\<close>

lemma load_rows_nth:
  "load_rows v rows = Inr as \<Longrightarrow> i < length rows
     \<Longrightarrow> \<exists>v0 v'. process_row v0 (rows ! i) = Inr (v', as ! i)"
proof (induction rows arbitrary: v as i)
  case Nil
  then show ?case by simp
next
  case (Cons r rs)
  from Cons.prems(1) obtain v1 a1 as1 where
    p: "process_row v r = Inr (v1, a1)" and l: "load_rows v1 rs = Inr as1"
    and a: "as = a1 # as1"
    by (auto split: sum.splits prod.splits)
  show ?case
  proof (cases i)
    case 0
    with p a show ?thesis by auto
  next
    case (Suc n)
    with Cons.prems(2) have "n < length rs" by simp
    from Cons.IH [OF l this] Suc a show ?thesis by simp
  qed
qed

lemma annotated_row:
  assumes "process_row v r = Inr (v', a)"
    and "a_subject_idx a = (ss, se)" and "a_object_idx a = (os, oe)"
  shows "a_sentence a = mark_sentence (sentence r) ss se os oe"
    and "a_subject_entity a = py_slice (sentence r) ss (se + 1)"
    and "a_object_entity a = py_slice (sentence r) os (oe + 1)"
proof -
  from assms(1) obtain st ot b where a: "a = annotate r st ot b"
    unfolding process_row_Inr by blast
  obtain ss' se' os' oe' where b: "b = (ss', se', os', oe')" by (cases b) auto
  from assms(2,3) a b have "ss' = ss" "se' = se" "os' = os" "oe' = oe"
    by (simp_all add: annotate_idx)
  with a b show "a_sentence a = mark_sentence (sentence r) ss se os oe"
    "a_subject_entity a = py_slice (sentence r) ss (se + 1)"
    "a_object_entity a = py_slice (sentence r) os (oe + 1)"
    by (simp_all add: annotate_idx)
qed

section \<open>The markers wrap the text of the entities\<close>

text \<open>
  The two insertions are right for the offsets that \<open>load_data\<close> holds in its variables
  when it reaches them. For every row of the result whose recorded offsets, \<open>subject_idx\<close>
  and \<open>object_idx\<close>, are disjoint and lie within the sentence: the span that starts first
  has its opening marker at its start offset, the span that starts second at its start
  offset plus 11, and each opening marker is followed by the text cut out of the original
  sentence and that text by the closing marker.
\<close>

lemma markers_wrap_recorded_offsets:
  assumes "load_data rows = Inr as" and "i < length rows"
    and "a_subject_idx (as ! i) = (ss, se)" and "a_object_idx (as ! i) = (os, oe)"
    and "valid_spans (sentence (rows ! i)) ss se os oe"
  shows "a_subject_entity (as ! i) = py_slice (sentence (rows ! i)) ss (se + 1)
       \<and> a_object_entity (as ! i) = py_slice (sentence (rows ! i)) os (oe + 1)
       \<and> marked_at (a_sentence (as ! i)) (if ss < os then ss else ss + 11)
           (a_subject_entity (as ! i)) ''[SUB]'' ''[/SUB]''
       \<and> marked_at (a_sentence (as ! i)) (if ss < os then os + 11 else os)
           (a_object_entity (as ! i)) ''[OBJ]'' ''[/OBJ]''"
proof -
  from assms(1,2) obtain v0 v' where "process_row v0 (rows ! i) = Inr (v', as ! i)"
    unfolding load_data_def using load_rows_nth by blast
  note a = annotated_row [OF this assms(3,4)]
  from mark_sentence_subject [OF assms(5)] mark_sentence_object [OF assms(5)] a
  show ?thesis by simp
qed

text \<open>
  Claim C1. For every record whose subject and object spans are disjoint and lie within
  the sentence, the marked sentence should have \<open>[SUB]\<close> and \<open>[/SUB]\<close> around the text
  of the subject and \<open>[OBJ]\<close> and \<open>[/OBJ]\<close> around the text of the object. The offsets
  that \<open>load_data\<close> uses are not always those of the record: the scan looks for the keys
  of the object field at the positions of the subject field only. In the row below, in the
  format of the data set, the subject is at 0 to 2 and the object, 64 characters long, at
  11 to 74; the keys of the object field lie beyond the 60 characters of the subject field.
  As the only row it makes \<open>load_data\<close> fail with \<open>UnboundLocalError\<close>; after the row of
  the scenario it is marked with the object offsets of that row, 13 and 16, so that
  \<open>[OBJ]\<close> and \<open>[/OBJ]\<close> stand around \<open>tern\<close>.
\<close>

theorem long_object_row_mismarked:
  "valid_spans (sentence long_row) 0 2 11 74
   \<and> py_slice (sentence long_row) 0 3 = ''Kim''
   \<and> py_slice (sentence long_row) 11 75
       = ''International Federation of Red Cross and Red Crescent Societies''
   \<and> length (subject_entity long_row) = 60
   \<and> \<not> key_within ''start_idx'' (object_entity long_row) 60
   \<and> \<not> key_within ''end_idx'' (object_entity long_row) 60
   \<and> load_data [long_row] = Inl UnboundLocalError
   \<and> load_data [kim_row, long_row] =
       Inr [\<lparr>a_id = 0, a_sentence = ''[SUB]Kim[/SUB] works at [OBJ]Acme[/OBJ]'',
             a_subject_entity = ''Kim'', a_object_entity = ''Acme'',
             a_subject_type = ''PER'', a_object_type = ''ORG'',
             a_label = ''org:members'', a_subject_idx = (0, 2), a_object_idx = (13, 16)\<rparr>,
            \<lparr>a_id = 6, a_sentence = ''[SUB]Kim[/SUB] joined In[OBJ]tern[/OBJ]ational Federation of Red Cross and Red Crescent Societies'',
             a_subject_entity = ''Kim'', a_object_entity = ''tern'',
             a_subject_type = ''PER'', a_object_type = ''ORG'',
             a_label = ''per:employee_of'', a_subject_idx = (0, 2),
             a_object_idx = (13, 16)\<rparr>]"
  by code_simp

section \<open>Round trip with the markers deleted\<close>

text \<open>
  Claim C2, as stated: for every record whose spans are disjoint and lie within the
  sentence, deleting the four markers from the marked sentence gives back the sentence.
  It does not hold for a sentence that contains the text of a marker: the sentence
  \<open>[SUB]a b\<close> with the subject at 5 and the object at 7 is marked as
  \<open>[SUB][SUB]a[/SUB] [OBJ]b[/OBJ]\<close>, and deleting the markers leaves \<open>a b\<close>.
\<close>

theorem strip_loses_marker_text:
  "valid_spans (sentence bracket_row) 5 5 7 7
   \<and> load_data [bracket_row] =
       Inr [\<lparr>a_id = 5, a_sentence = ''[SUB][SUB]a[/SUB] [OBJ]b[/OBJ]'',
             a_subject_entity = ''a'', a_object_entity = ''b'',
             a_subject_type = ''PER'', a_object_type = ''ORG'',
             a_label = ''no_relation'', a_subject_idx = (5, 5), a_object_idx = (7, 7)\<rparr>]
   \<and> strip_markers ''[SUB][SUB]a[/SUB] [OBJ]b[/OBJ]'' = ''a b''
   \<and> strip_markers ''[SUB][SUB]a[/SUB] [OBJ]b[/OBJ]'' \<noteq> sentence bracket_row"
  by code_simp

text \<open>
  Claim C2, amended. For every row of the result of \<open>load_data\<close>: when the offsets
  recorded for the row, \<open>subject_idx\<close> and \<open>object_idx\<close> (the values that the scan left
  in the offset variables), are disjoint and lie within the sentence, and the sentence
  contains none of the four markers, deleting the four markers from the marked sentence
  gives back the sentence. Whether the recorded offsets are those written in the fields of
  the row is no part of this statement.
\<close>

theorem strip_markers_roundtrip:
  assumes "load_data rows = Inr as" and "i < length rows"
    and "a_subject_idx (as ! i) = (ss, se)" and "a_object_idx (as ! i) = (os, oe)"
    and "valid_spans (sentence (rows ! i)) ss se os oe"
    and "marker_free (sentence (rows ! i))"
  shows "strip_markers (a_sentence (as ! i)) = sentence (rows ! i)"
proof -
  from assms(1,2) obtain v0 v' where "process_row v0 (rows ! i) = Inr (v', as ! i)"
    unfolding load_data_def using load_rows_nth by blast
  note a = annotated_row [OF this assms(3,4)]
  from strip_mark_sentence [OF assms(5,6)] a(1) show ?thesis by simp
qed

theorem strip_markers_roundtrip_witness:
  "load_data [kim_row] =
     Inr [\<lparr>a_id = 0, a_sentence = ''[SUB]Kim[/SUB] works at [OBJ]Acme[/OBJ]'',
           a_subject_entity = ''Kim'', a_object_entity = ''Acme'',
           a_subject_type = ''PER'', a_object_type = ''ORG'',
           a_label = ''org:members'', a_subject_idx = (0, 2), a_object_idx = (13, 16)\<rparr>]
   \<and> valid_spans (sentence kim_row) 0 2 13 16
   \<and> marker_free (sentence kim_row)
   \<and> strip_markers ''[SUB]Kim[/SUB] works at [OBJ]Acme[/OBJ]'' = ''Kim works at Acme''"
proof -
  let ?a = "\<lparr>a_id = 0, a_sentence = ''[SUB]Kim[/SUB] works at [OBJ]Acme[/OBJ]'',
           a_subject_entity = ''Kim'', a_object_entity = ''Acme'',
           a_subject_type = ''PER'', a_object_type = ''ORG'',
           a_label = ''org:members'', a_subject_idx = (0, 2), a_object_idx = (13, 16)\<rparr>"
  have l: "load_data [kim_row] = Inr [?a]" by code_simp
  have v: "valid_spans (sentence ([kim_row] ! 0)) 0 2 13 16" by code_simp
  have f: "marker_free (sentence ([kim_row] ! 0))" by code_simp
  have s: "sentence kim_row = ''Kim works at Acme''" by (simp add: kim_row_def)
  have "strip_markers (a_sentence ([?a] ! 0)) = sentence ([kim_row] ! 0)"
    using strip_markers_roundtrip [OF l _ _ _ v f] by simp
  then have "strip_markers ''[SUB]Kim[/SUB] works at [OBJ]Acme[/OBJ]'' = ''Kim works at Acme''"
    by (simp only: s nth_Cons_0 annotated.simps)
  with l v f show ?thesis by simp
qed

section \<open>Spans that intersect\<close>




end
